theory Spec2Isabelle
  imports Main "HOL-Library.Char_ord" "HOL-Library.List_Lexorder" "HOL-Library.Word"
begin

section \<open>FontInfo and its comparison operator\<close>

text \<open>
  \<^verbatim>\<open>FontInfo\<close> (FontCache.cc, lines 80-114) holds three \<^verbatim>\<open>std::string\<close> fields and a
  \<^verbatim>\<open>uint32_t\<close> hash. \<^verbatim>\<open>std::string\<close> is compared bytewise and lexicographically, a proper
  prefix being smaller: this is the order of \<open>char list\<close> given by \<open>Char_ord\<close> and
  \<open>List_Lexorder\<close>.
\<close>

record FontInfo =
  family :: string
  style :: string
  "file" :: string
  hash :: "32 word"

text \<open>\<^verbatim>\<open>FontInfo::operator<\<close>, lines 85-94: three tests, each returning early.\<close>

definition FontInfo_less :: "FontInfo \<Rightarrow> FontInfo \<Rightarrow> bool" where
  "FontInfo_less lhs rhs =
     (if family lhs < family rhs then True
      else if style lhs < style rhs then True
      else file lhs < file rhs)"

section \<open>The loaded face and the outline engine\<close>

text \<open>
  An \<^verbatim>\<open>FT_CharMapRec\<close> of the outline engine carries a platform id and an encoding id, both
  \<^verbatim>\<open>FT_UShort\<close>. The face (\<^verbatim>\<open>FT_FaceRec\<close>) has the table \<^verbatim>\<open>charmaps\<close> of
  \<^verbatim>\<open>num_charmaps\<close> entries (here the length of the list) and the pointer \<^verbatim>\<open>charmap\<close> to
  the active entry, \<open>None\<close> when it is null.
\<close>

record FT_CharMapRec =
  platform_id :: "16 word"
  encoding_id :: "16 word"

record FT_FaceRec =
  family_name :: string
  style_name :: string
  charmaps :: "FT_CharMapRec list"
  charmap :: "FT_CharMapRec option"

text \<open>\<^verbatim>\<open>FontFace\<close>: the face and the feature tags; \<^verbatim>\<open>FontFacePtr\<close> is a shared pointer to
  it, \<open>None\<close> for \<^verbatim>\<open>nullptr\<close>.\<close>

record FontFace =
  face_ :: FT_FaceRec
  features_ :: "string list"

type_synonym FontFacePtr = "FontFace option"

text \<open>
  On two kinds of input the code has no defined behaviour; the model returns an error
  value there. \<open>DerefEnd\<close>: \<^verbatim>\<open>check_cleanup\<close> dereferences \<^verbatim>\<open>cache.end()\<close>.
  \<open>NullCharmap\<close>: \<^verbatim>\<open>is_windows_symbol_font\<close> reads through a null \<^verbatim>\<open>face->charmap\<close>.
\<close>

datatype error = DerefEnd | NullCharmap

section \<open>The resolver\<close>

text \<open>
  The platform and encoding ids are those of the outline engine's header
  \<^verbatim>\<open>FT_TRUETYPE_IDS_H\<close>; \<^verbatim>\<open>try_charmap\<close> takes them as \<^verbatim>\<open>int\<close>.
\<close>

definition TT_PLATFORM_APPLE_UNICODE :: int where "TT_PLATFORM_APPLE_UNICODE = 0"
definition TT_PLATFORM_MACINTOSH :: int where "TT_PLATFORM_MACINTOSH = 1"
definition TT_PLATFORM_ISO :: int where "TT_PLATFORM_ISO = 2"
definition TT_PLATFORM_MICROSOFT :: int where "TT_PLATFORM_MICROSOFT = 3"
definition TT_MS_ID_SYMBOL_CS :: int where "TT_MS_ID_SYMBOL_CS = 0"
definition TT_MS_ID_UNICODE_CS :: int where "TT_MS_ID_UNICODE_CS = 1"
definition TT_ISO_ID_7BIT_ASCII :: int where "TT_ISO_ID_7BIT_ASCII = 0"
definition TT_ISO_ID_10646 :: int where "TT_ISO_ID_10646 = 1"
definition TT_ISO_ID_8859_1 :: int where "TT_ISO_ID_8859_1 = 2"
definition TT_MAC_ID_ROMAN :: int where "TT_MAC_ID_ROMAN = 0"

text \<open>
  What the matching engine found: the values that \<^verbatim>\<open>FcPatternGetString\<close> and
  \<^verbatim>\<open>FcPatternGetInteger\<close> yield on the match for \<^verbatim>\<open>FC_FILE\<close>, \<^verbatim>\<open>FC_INDEX\<close> and
  \<^verbatim>\<open>FC_FONT_FEATURES\<close>, \<open>None\<close> when the result is not \<^verbatim>\<open>FcResultMatch\<close>.
\<close>

record FcPatternRec =
  FC_FILE :: "string option"
  FC_INDEX :: "int option"
  FC_FONT_FEATURES :: "string option"

text \<open>
  The two engines are outside the program; their answers are parameters of the model.
  \<^item> \<open>FcNameParse\<close>: whether the query parses into a pattern.
  \<^item> \<open>FcFontMatch\<close>: the best match for the pattern of the query, after
    \<^verbatim>\<open>init_pattern\<close>, \<^verbatim>\<open>FcConfigSubstitute\<close> and \<^verbatim>\<open>FcDefaultSubstitute\<close>.
  \<^item> \<open>FT_New_Face\<close>: the face loaded from a file and a face index, \<open>None\<close> on an error.
  \<^item> \<open>FT_Select_Charmap\<close>: the charmap that the engine activates for
    \<^verbatim>\<open>ft_encoding_unicode\<close>, \<open>None\<close> on an error.
  \<^item> \<open>FT_Set_Charmap\<close>: whether the activation of the table entry at an index succeeds.
  \<^item> \<open>FT_Get_First_Char\<close>: the first character code of the active charmap and its glyph
    index; the glyph index is 0 when the charmap is empty.
  A successful activation makes \<^verbatim>\<open>face->charmap\<close> point to the charmap; a failed one
  leaves the face as it is.
\<close>

record engine =
  FcNameParse :: "string \<Rightarrow> bool"
  FcFontMatch :: "string \<Rightarrow> FcPatternRec"
  FT_New_Face :: "string \<Rightarrow> int \<Rightarrow> FT_FaceRec option"
  FT_Select_Charmap :: "FT_FaceRec \<Rightarrow> FT_CharMapRec option"
  FT_Set_Charmap :: "FT_FaceRec \<Rightarrow> nat \<Rightarrow> bool"
  FT_Get_First_Char :: "FT_FaceRec \<Rightarrow> nat \<times> nat"

text \<open>
  \<^verbatim>\<open>FontCache::is_windows_symbol_font\<close>, lines 482-499. The function reads through
  \<^verbatim>\<open>face->charmap\<close>; with no active charmap this is a null pointer, and the model returns
  the error \<open>NullCharmap\<close>.
\<close>

definition is_windows_symbol_font :: "engine \<Rightarrow> FT_FaceRec \<Rightarrow> error + bool" where
  "is_windows_symbol_font eng face =
     (case charmap face of
        None \<Rightarrow> Inl NullCharmap
      | Some cm \<Rightarrow>
          if uint (platform_id cm) \<noteq> TT_PLATFORM_MICROSOFT then Inr False
          else if uint (encoding_id cm) \<noteq> TT_MS_ID_SYMBOL_CS then Inr False
          else (case FT_Get_First_Char eng face of
                  (charcode, gindex) \<Rightarrow>
                    if gindex = 0 \<or> charcode < 0xf000 then Inr False else Inr True))"

text \<open>The first character code that the active charmap defines, if it defines any:
  the engine reports an empty charmap by the glyph index 0.\<close>

definition first_defined_char :: "engine \<Rightarrow> FT_FaceRec \<Rightarrow> nat option" where
  "first_defined_char eng face =
     (case FT_Get_First_Char eng face of
        (charcode, gindex) \<Rightarrow> if gindex = 0 then None else Some charcode)"

text \<open>The test of line 469 on one table entry; a negative encoding id matches every
  encoding.\<close>

definition charmap_matches :: "FT_CharMapRec \<Rightarrow> int \<Rightarrow> int \<Rightarrow> bool" where
  "charmap_matches cm platform encoding =
     (uint (platform_id cm) = platform \<and> (encoding < 0 \<or> uint (encoding_id cm) = encoding))"

text \<open>
  \<^verbatim>\<open>FontCache::try_charmap\<close>, lines 464-480: the loop from the index \<open>idx\<close> on. The call of
  \<^verbatim>\<open>is_windows_symbol_font\<close> in line 472 only chooses a debug message; the debug messages
  (\<^verbatim>\<open>PRINTD\<close>, \<^verbatim>\<open>PRINTDB\<close>) are not part of the model. The face has an active charmap
  at that point, so the call is defined.
\<close>

function try_charmap_from ::
  "engine \<Rightarrow> FT_FaceRec \<Rightarrow> int \<Rightarrow> int \<Rightarrow> nat \<Rightarrow> bool \<times> FT_FaceRec" where
  "try_charmap_from eng face platform encoding idx =
     (if idx < length (charmaps face) then
        (if charmap_matches (charmaps face ! idx) platform encoding then
           (if FT_Set_Charmap eng face idx
            then (True, face\<lparr>charmap := Some (charmaps face ! idx)\<rparr>)
            else try_charmap_from eng face platform encoding (Suc idx))
         else try_charmap_from eng face platform encoding (Suc idx))
      else (False, face))"
  by pat_completeness auto
termination
  by (relation "measure (\<lambda>(eng, face, platform, encoding, idx). length (charmaps face) - idx)")
    auto

declare try_charmap_from.simps [simp del]

definition try_charmap :: "engine \<Rightarrow> FT_FaceRec \<Rightarrow> int \<Rightarrow> int \<Rightarrow> bool \<times> FT_FaceRec" where
  "try_charmap eng face platform encoding = try_charmap_from eng face platform encoding 0"

text \<open>One line of the chain, lines 451-457:
  \<^verbatim>\<open>if (!charmap_set) charmap_set = try_charmap(face, platform, encoding);\<close>\<close>

definition chain_step ::
  "engine \<Rightarrow> int \<Rightarrow> int \<Rightarrow> bool \<times> FT_FaceRec \<Rightarrow> bool \<times> FT_FaceRec" where
  "chain_step eng platform encoding st =
     (case st of (charmap_set, face) \<Rightarrow>
        if \<not> charmap_set then try_charmap eng face platform encoding else (charmap_set, face))"

definition could_not_select :: "FT_FaceRec \<Rightarrow> string" where
  "could_not_select face =
     ''Could not select a char map for font '' @ [CHR 0x27] @ family_name face @ ''/''
       @ style_name face @ [CHR 0x27]"

text \<open>
  The selection of the charmap in \<^verbatim>\<open>find_face_fontconfig\<close>, lines 447-459; the result is
  the face and the warnings logged.
\<close>

definition select_charmap :: "engine \<Rightarrow> FT_FaceRec \<Rightarrow> FT_FaceRec \<times> string list" where
  "select_charmap eng face =
     (case FT_Select_Charmap eng face of
        Some cm \<Rightarrow> (face\<lparr>charmap := Some cm\<rparr>, [])
      | None \<Rightarrow>
          (case chain_step eng TT_PLATFORM_ISO TT_ISO_ID_7BIT_ASCII
                 (chain_step eng TT_PLATFORM_ISO TT_ISO_ID_8859_1
                 (chain_step eng TT_PLATFORM_MACINTOSH TT_MAC_ID_ROMAN
                 (chain_step eng TT_PLATFORM_MICROSOFT TT_MS_ID_SYMBOL_CS
                 (chain_step eng TT_PLATFORM_APPLE_UNICODE (- 1)
                 (chain_step eng TT_PLATFORM_ISO TT_ISO_ID_10646
                 (chain_step eng TT_PLATFORM_MICROSOFT TT_MS_ID_UNICODE_CS
                 (False, face))))))) of
             (charmap_set, face') \<Rightarrow>
               (face', if \<not> charmap_set then [could_not_select face'] else [])))"

text \<open>\<^verbatim>\<open>boost::split\<close> at one separator: the empty string gives one empty token.\<close>

fun split_on :: "char \<Rightarrow> string \<Rightarrow> string list" where
  "split_on d [] = [[]]"
| "split_on d (c # cs) =
     (if c = d then [] # split_on d cs
      else (case split_on d cs of
              [] \<Rightarrow> [[c]]
            | t # ts \<Rightarrow> (c # t) # ts))"

definition could_not_parse :: "string \<Rightarrow> string" where
  "could_not_parse font = ''Could not parse font '' @ [CHR 0x27] @ font @ [CHR 0x27]"

text \<open>
  \<^verbatim>\<open>FontCache::find_face_fontconfig\<close>, lines 395-462: the pointer returned and the
  warnings logged.
\<close>

definition find_face_fontconfig :: "engine \<Rightarrow> string \<Rightarrow> FontFacePtr \<times> string list" where
  "find_face_fontconfig eng font =
     (if \<not> FcNameParse eng font then (None, [could_not_parse font])
      else
        (case FC_FILE (FcFontMatch eng font) of
           None \<Rightarrow> (None, [])
         | Some file_value \<Rightarrow>
             (case FC_INDEX (FcFontMatch eng font) of
                None \<Rightarrow> (None, [])
              | Some font_index \<Rightarrow>
                  (let font_features_str =
                         (case FC_FONT_FEATURES (FcFontMatch eng font) of
                            Some s \<Rightarrow> s
                          | None \<Rightarrow> [])
                   in case FT_New_Face eng file_value font_index of
                        None \<Rightarrow> (None, [])
                      | Some ftFace \<Rightarrow>
                          (case select_charmap eng ftFace of
                             (ftFace', warnings) \<Rightarrow>
                               (Some \<lparr>face_ = ftFace',
                                      features_ = split_on CHR '';'' font_features_str\<rparr>,
                                warnings))))))"

text \<open>The resolver that \<^verbatim>\<open>find_face\<close> calls, for a given pair of engines.\<close>

definition resolver_of :: "engine \<Rightarrow> string \<Rightarrow> FontFacePtr" where
  "resolver_of eng lookup = fst (find_face_fontconfig eng lookup)"

text \<open>
  The chain as the specification lists it: the pairs of platform and encoding in their
  order, \<open>- 1\<close> for any encoding.
\<close>

definition fallback_chain :: "(int \<times> int) list" where
  "fallback_chain =
     [(TT_PLATFORM_MICROSOFT, TT_MS_ID_UNICODE_CS),
      (TT_PLATFORM_ISO, TT_ISO_ID_10646),
      (TT_PLATFORM_APPLE_UNICODE, - 1),
      (TT_PLATFORM_MICROSOFT, TT_MS_ID_SYMBOL_CS),
      (TT_PLATFORM_MACINTOSH, TT_MAC_ID_ROMAN),
      (TT_PLATFORM_ISO, TT_ISO_ID_8859_1),
      (TT_PLATFORM_ISO, TT_ISO_ID_7BIT_ASCII)]"

text \<open>
  A try step as the specification words it: find the first table entry that matches, try
  to activate that one entry, and report whether this activation succeeded.
\<close>

definition try_charmap_first_match ::
  "engine \<Rightarrow> FT_FaceRec \<Rightarrow> int \<Rightarrow> int \<Rightarrow> bool \<times> FT_FaceRec" where
  "try_charmap_first_match eng face platform encoding =
     (case find (\<lambda>idx. charmap_matches (charmaps face ! idx) platform encoding)
             [0..<length (charmaps face)] of
        None \<Rightarrow> (False, face)
      | Some idx \<Rightarrow>
          if FT_Set_Charmap eng face idx
          then (True, face\<lparr>charmap := Some (charmaps face ! idx)\<rparr>)
          else (False, face))"

section \<open>Query normalisation in find_face\<close>

text \<open>
  \<^verbatim>\<open>boost::algorithm::trim\<close> removes the white space at the right end and then at the left
  end of the string; white space is what \<^verbatim>\<open>std::isspace\<close> accepts in the classic locale:
  space, \<^verbatim>\<open>\t\<close>, \<^verbatim>\<open>\n\<close>, \<^verbatim>\<open>\v\<close>, \<^verbatim>\<open>\f\<close> and \<^verbatim>\<open>\r\<close>.
\<close>

definition is_space :: "char \<Rightarrow> bool" where
  "is_space c = (c = CHR '' '' \<or> c = CHR 0x09 \<or> c = CHR 0x0A \<or> c = CHR 0x0B
                 \<or> c = CHR 0x0C \<or> c = CHR 0x0D)"

definition trim_right :: "string \<Rightarrow> string" where
  "trim_right s = rev (dropWhile is_space (rev s))"

definition trim_left :: "string \<Rightarrow> string" where
  "trim_left s = dropWhile is_space s"

definition trim :: "string \<Rightarrow> string" where
  "trim s = trim_left (trim_right s)"

definition DEFAULT_FONT :: string where
  "DEFAULT_FONT = ''Liberation Sans:style=Regular''"

text \<open>The string \<^verbatim>\<open>lookup\<close> of \<^verbatim>\<open>find_face\<close>, line 372.\<close>

definition find_face_lookup :: "string \<Rightarrow> string" where
  "find_face_lookup font =
     (let trimmed = trim font in if trimmed = [] then DEFAULT_FONT else trimmed)"

text \<open>
  \<^verbatim>\<open>FontCache::find_face\<close>, lines 367-381. The resolver proper is a parameter here, so
  that the cache can be studied for every resolver; \<open>resolver_of\<close> gives the one of
  \<^verbatim>\<open>find_face_fontconfig\<close> for a pair of engines.
\<close>

definition find_face :: "(string \<Rightarrow> FontFacePtr) \<Rightarrow> string \<Rightarrow> FontFacePtr" where
  "find_face resolver font = resolver (find_face_lookup font)"

section \<open>The cache\<close>

text \<open>
  Modelled from the spec: the type of the member \<^verbatim>\<open>cache\<close> and the constant
  \<^verbatim>\<open>MAX_NR_OF_CACHE_ENTRIES\<close>, both declared in FontCache.h. The cache is a map from the
  query string to a pair of the face pointer and the time of the last access, with at most
  one entry per key, and it is iterated in some order. The model keeps the entries as a
  list in iteration order; a fresh key takes its place in the order of the keys, as in
  an ordered map (the theorems on \<^verbatim>\<open>get_font\<close> do not use where it is placed). The
  maximum is the parameter \<open>N\<close> of \<^verbatim>\<open>check_cleanup\<close> and \<^verbatim>\<open>get_font\<close>.
\<close>

type_synonym time_t = int
type_synonym cache_entry_t = "FontFacePtr \<times> time_t"
type_synonym cache_t = "(string \<times> cache_entry_t) list"

definition cache_keys :: "cache_t \<Rightarrow> string list" where
  "cache_keys c = map fst c"

definition stamp :: "cache_t \<Rightarrow> nat \<Rightarrow> time_t" where
  "stamp c i = snd (snd (c ! i))"

text \<open>\<^verbatim>\<open>cache.find(font)\<close>: the entry of the key, if there is one.\<close>

definition cache_find :: "string \<Rightarrow> cache_t \<Rightarrow> cache_entry_t option" where
  "cache_find font c = map_of c font"

text \<open>\<^verbatim>\<open>cache[font] = e\<close>: the entry of an existing key is overwritten in its place, a fresh
  key is inserted at its place in the order of the keys.\<close>

definition cache_assign :: "string \<Rightarrow> cache_entry_t \<Rightarrow> cache_t \<Rightarrow> cache_t" where
  "cache_assign font e c =
     (if font \<in> set (cache_keys c)
      then map (\<lambda>(k, v). if k = font then (k, e) else (k, v)) c
      else insort_key fst (font, e) c)"

text \<open>\<^verbatim>\<open>cache.erase(pos)\<close> for an iterator at position \<open>pos\<close>.\<close>

definition cache_erase :: "nat \<Rightarrow> cache_t \<Rightarrow> cache_t" where
  "cache_erase pos c = take pos c @ drop (Suc pos) c"

text \<open>
  The scan of \<^verbatim>\<open>check_cleanup\<close>, lines 340-345. \<^verbatim>\<open>pos\<close> starts at \<^verbatim>\<open>cache.begin()\<close> (the
  post-increment yields the iterator before the increment), \<^verbatim>\<open>it\<close> runs over all
  positions, and \<^verbatim>\<open>pos\<close> moves to \<^verbatim>\<open>it\<close> when the time at \<^verbatim>\<open>pos\<close> is greater than the
  time at \<^verbatim>\<open>it\<close>.
\<close>

definition oldest_pos :: "cache_t \<Rightarrow> nat" where
  "oldest_pos c =
     foldl (\<lambda>pos it. if stamp c pos > stamp c it then it else pos) 0 [0..<length c]"

text \<open>
  \<^verbatim>\<open>FontCache::check_cleanup\<close>, lines 334-348. On an empty cache that passes the size
  test (only possible for \<open>N = 0\<close>) the code dereferences \<^verbatim>\<open>cache.end()\<close>: the model
  returns the error \<open>DerefEnd\<close> then.
\<close>

definition check_cleanup :: "nat \<Rightarrow> cache_t \<Rightarrow> error + cache_t" where
  "check_cleanup N c =
     (if length c < N then Inr c
      else if c = [] then Inl DerefEnd
      else Inr (cache_erase (oldest_pos c) c))"

text \<open>
  \<^verbatim>\<open>FontCache::get_font\<close>, lines 350-365. \<open>now\<close> is the value of \<^verbatim>\<open>time(nullptr)\<close> at
  the call; the result is the returned pointer and the cache after the call.
\<close>

definition get_font ::
  "nat \<Rightarrow> (string \<Rightarrow> FontFacePtr) \<Rightarrow> time_t \<Rightarrow> string \<Rightarrow> cache_t
     \<Rightarrow> error + (FontFacePtr \<times> cache_t)" where
  "get_font N resolver now font c =
     (case cache_find font c of
        None \<Rightarrow>
          (case find_face resolver font of
             None \<Rightarrow> Inr (None, c)
           | Some f \<Rightarrow>
               (case check_cleanup N c of
                  Inl err \<Rightarrow> Inl err
                | Inr c' \<Rightarrow> Inr (Some f, cache_assign font (Some f, now) c')))
      | Some e \<Rightarrow> Inr (fst e, cache_assign font (fst e, now) c))"

text \<open>A sequence of calls of \<^verbatim>\<open>get_font\<close>, each with its query and its time, threading
  the cache; the returned pointers are dropped.\<close>

fun get_fonts ::
  "nat \<Rightarrow> (string \<Rightarrow> FontFacePtr) \<Rightarrow> (string \<times> time_t) list \<Rightarrow> cache_t \<Rightarrow> error + cache_t"
  where
  "get_fonts N resolver [] c = Inr c"
| "get_fonts N resolver ((font, now) # calls) c =
     (case get_font N resolver now font c of
        Inl err \<Rightarrow> Inl err
      | Inr (f, c') \<Rightarrow> get_fonts N resolver calls c')"

section \<open>Example values\<close>

text \<open>A face without charmaps, a resolver that finds every font and one that finds none.\<close>

definition plain_face :: "string \<Rightarrow> FontFace" where
  "plain_face name =
     \<lparr>face_ = \<lparr>family_name = name, style_name = ''Regular'', charmaps = [], charmap = None\<rparr>,
      features_ = [[]]\<rparr>"

definition any_font :: "string \<Rightarrow> FontFacePtr" where
  "any_font lookup = Some (plain_face lookup)"

definition no_font :: "string \<Rightarrow> FontFacePtr" where
  "no_font lookup = None"

text \<open>
  Three faces: one with a (Macintosh, Roman) charmap only, one with an active
  (Microsoft, Symbol) charmap, one with two Apple-Unicode charmaps. The engines of
  \<open>demo_engine\<close> parse every query, match one file, load the given face, have no
  Unicode charmap to select, refuse to activate the table entries at the listed indices, and
  report the first character code \<open>0xF020\<close> with a glyph.
\<close>

definition mac_roman_face :: FT_FaceRec where
  "mac_roman_face =
     \<lparr>family_name = ''Chicago'', style_name = ''Regular'',
      charmaps = [\<lparr>platform_id = 1, encoding_id = 0\<rparr>], charmap = None\<rparr>"

definition symbol_face :: FT_FaceRec where
  "symbol_face =
     \<lparr>family_name = ''Wingdings'', style_name = ''Regular'',
      charmaps = [\<lparr>platform_id = 3, encoding_id = 0\<rparr>],
      charmap = Some \<lparr>platform_id = 3, encoding_id = 0\<rparr>\<rparr>"

definition variation_face :: FT_FaceRec where
  "variation_face =
     \<lparr>family_name = ''Demo'', style_name = ''Regular'',
      charmaps = [\<lparr>platform_id = 0, encoding_id = 5\<rparr>, \<lparr>platform_id = 0, encoding_id = 6\<rparr>],
      charmap = None\<rparr>"

definition demo_engine :: "FT_FaceRec \<Rightarrow> nat list \<Rightarrow> engine" where
  "demo_engine loaded refused =
     \<lparr>FcNameParse = (\<lambda>font. True),
      FcFontMatch = (\<lambda>font. \<lparr>FC_FILE = Some ''/fonts/demo.ttf'', FC_INDEX = Some 0,
                             FC_FONT_FEATURES = None\<rparr>),
      FT_New_Face = (\<lambda>file_value font_index. Some loaded),
      FT_Select_Charmap = (\<lambda>face. None),
      FT_Set_Charmap = (\<lambda>face idx. idx \<notin> set refused),
      FT_Get_First_Char = (\<lambda>face. (0xF020, 3))\<rparr>"

section \<open>FontInfo: the comparison is not an order\<close>

text \<open>
  C9. \<^verbatim>\<open>operator<\<close> of \<^verbatim>\<open>FontInfo\<close> is true when the family is smaller, or when the style
  is smaller whatever the families are, and is the comparison of the files otherwise. It is
  not a strict order: there are two values each of which is smaller than the other.
\<close>

theorem FontInfo_less_not_strict_order:
  "FontInfo_less a b = (family a < family b \<or> style a < style b \<or> file a < file b)
   \<and> (\<exists>x y. FontInfo_less x y \<and> FontInfo_less y x)"
proof
  show "FontInfo_less a b = (family a < family b \<or> style a < style b \<or> file a < file b)"
    by (simp add: FontInfo_less_def)
next
  let ?x = "\<lparr>family = ''A'', style = ''B'', file = ''f'', hash = 0\<rparr>"
  let ?y = "\<lparr>family = ''B'', style = ''A'', file = ''f'', hash = 0\<rparr>"
  have "FontInfo_less ?x ?y" by (simp add: FontInfo_less_def less_char_def)
  moreover have "FontInfo_less ?y ?x" by (simp add: FontInfo_less_def less_char_def)
  ultimately show "\<exists>x y. FontInfo_less x y \<and> FontInfo_less y x" by blast
qed

section \<open>The scan for the oldest entry\<close>

lemma scan_invariant:
  "0 < n \<Longrightarrow>
   (let p = foldl (\<lambda>pos it. if stamp c pos > stamp c it then it else pos) 0 [0..<n]
    in p < n \<and> (\<forall>j<n. stamp c p \<le> stamp c j) \<and> (\<forall>j<p. stamp c p < stamp c j))"
proof (induction n)
  case 0
  then show ?case by simp
next
  case (Suc n)
  show ?case
  proof (cases "n = 0")
    case True
    then show ?thesis by simp
  next
    case False
    with Suc.IH have ih:
      "let p = foldl (\<lambda>pos it. if stamp c pos > stamp c it then it else pos) 0 [0..<n]
       in p < n \<and> (\<forall>j<n. stamp c p \<le> stamp c j) \<and> (\<forall>j<p. stamp c p < stamp c j)"
      by simp
    define p where "p = foldl (\<lambda>pos it. if stamp c pos > stamp c it then it else pos) 0 [0..<n]"
    from ih have 1: "p < n" and 2: "\<forall>j<n. stamp c p \<le> stamp c j"
      and 3: "\<forall>j<p. stamp c p < stamp c j"
      by (simp_all add: p_def Let_def)
    show ?thesis
    proof (cases "stamp c p > stamp c n")
      case True
      have "\<forall>j<Suc n. stamp c n \<le> stamp c j"
        using True 2 by (auto simp: less_Suc_eq)
      moreover have "\<forall>j<n. stamp c n < stamp c j"
        using True 2 by force
      ultimately show ?thesis using True by (simp add: p_def [symmetric])
    next
      case False
      have "\<forall>j<Suc n. stamp c p \<le> stamp c j"
        using False 2 by (auto simp: less_Suc_eq)
      then show ?thesis using False 1 3 by (simp add: p_def [symmetric])
    qed
  qed
qed

lemma oldest_pos_props:
  assumes "c \<noteq> []"
  shows "oldest_pos c < length c"
    and "\<forall>j<length c. stamp c (oldest_pos c) \<le> stamp c j"
    and "\<forall>j<oldest_pos c. stamp c (oldest_pos c) < stamp c j"
  using scan_invariant [of "length c" c] assms
  by (simp_all add: oldest_pos_def Let_def)

lemma oldest_pos_unique:
  assumes "p < length c" and "\<forall>j<length c. j \<noteq> p \<longrightarrow> stamp c p < stamp c j"
  shows "oldest_pos c = p"
proof -
  from assms(1) have ne: "c \<noteq> []" by auto
  let ?q = "oldest_pos c"
  have "?q < length c" using oldest_pos_props(1) [OF ne] .
  moreover have "stamp c ?q \<le> stamp c p" using oldest_pos_props(2) [OF ne] assms(1) by blast
  ultimately show ?thesis using assms(2) by force
qed

section \<open>Assignment, erasure and the two paths of get_font\<close>

lemma cache_find_None_iff: "cache_find font c = None \<longleftrightarrow> font \<notin> set (cache_keys c)"
  by (simp add: cache_find_def cache_keys_def map_of_eq_None_iff)

lemma cache_assign_fresh:
  assumes "font \<notin> set (cache_keys c)"
  shows "length (cache_assign font e c) = Suc (length c)"
    and "set (cache_keys (cache_assign font e c)) = insert font (set (cache_keys c))"
    and "cache_find k (cache_assign font e c) = (if k = font then Some e else cache_find k c)"
    and "distinct (cache_keys c) \<Longrightarrow> distinct (cache_keys (cache_assign font e c))"
proof -
  have eq: "cache_assign font e c = insort_key fst (font, e) c"
    using assms by (simp add: cache_assign_def)
  show "length (cache_assign font e c) = Suc (length c)" by (simp add: eq)
  show "set (cache_keys (cache_assign font e c)) = insert font (set (cache_keys c))"
    by (simp add: eq cache_keys_def set_insort_key)
  have "map_of (insort_key fst (font, e) xs) k = (if k = font then Some e else map_of xs k)"
    if "font \<notin> fst ` set xs" for xs :: cache_t
    using that by (induction xs) auto
  then show "cache_find k (cache_assign font e c) = (if k = font then Some e else cache_find k c)"
    using assms by (simp add: eq cache_find_def cache_keys_def)
  have "distinct (map fst (insort_key fst (font, e) xs))"
    if "font \<notin> fst ` set xs" "distinct (map fst xs)" for xs :: cache_t
    using that by (induction xs) (auto simp: set_insort_key)
  then show "distinct (cache_keys c) \<Longrightarrow> distinct (cache_keys (cache_assign font e c))"
    using assms by (simp add: eq cache_keys_def)
qed

lemma cache_assign_present:
  assumes "font \<in> set (cache_keys c)"
  shows "cache_assign font e c = map (\<lambda>(k, v). if k = font then (k, e) else (k, v)) c"
  using assms by (simp add: cache_assign_def)

lemma overwrite_keys:
  "cache_keys (map (\<lambda>(k, v). if k = font then (k, e) else (k, v)) c) = cache_keys c"
  by (induction c) (auto simp: cache_keys_def)

lemma overwrite_nth:
  "i < length c \<Longrightarrow>
   map (\<lambda>(k, v). if k = font then (k, e) else (k, v)) c ! i =
     (if fst (c ! i) = font then (font, e) else c ! i)"
  by (auto simp: case_prod_beta)

lemma overwrite_find:
  "cache_find k (map (\<lambda>(k, v). if k = font then (k, e) else (k, v)) c) =
     (if k = font \<and> font \<in> set (cache_keys c) then Some e else cache_find k c)"
proof -
  have "map_of (map (\<lambda>p. if fst p = font then (fst p, e) else p) xs) k =
          (if k = font \<and> font \<in> fst ` set xs then Some e else map_of xs k)"
    for xs :: cache_t
  proof (induction xs)
    case Nil
    show ?case by simp
  next
    case (Cons x xs)
    show ?case
    proof (cases "fst x = font")
      case True
      then show ?thesis using Cons.IH by (cases x) simp
    next
      case False
      then show ?thesis using Cons.IH by (cases x) force
    qed
  qed
  moreover have "(\<lambda>(k, v). if k = font then (k, e) else (k, v)) =
                 (\<lambda>p. if fst p = font then (fst p, e) else p)"
    by (auto simp: fun_eq_iff)
  ultimately show ?thesis
    by (simp add: cache_find_def cache_keys_def)
qed

lemma cache_erase_props:
  assumes "pos < length c"
  shows "length (cache_erase pos c) = length c - 1"
    and "distinct (cache_keys c) \<Longrightarrow>
         set (cache_keys (cache_erase pos c)) = set (cache_keys c) - {cache_keys c ! pos}"
    and "distinct (cache_keys c) \<Longrightarrow> distinct (cache_keys (cache_erase pos c))"
proof -
  show "length (cache_erase pos c) = length c - 1"
    using assms by (simp add: cache_erase_def)
  have split: "c = take pos c @ (c ! pos) # drop (Suc pos) c"
    using assms by (simp add: id_take_nth_drop)
  have keys: "cache_keys c = cache_keys (take pos c) @ fst (c ! pos) # cache_keys (drop (Suc pos) c)"
    unfolding cache_keys_def by (subst split) simp
  have er: "cache_keys (cache_erase pos c) = cache_keys (take pos c) @ cache_keys (drop (Suc pos) c)"
    by (simp add: cache_erase_def cache_keys_def)
  have nth: "cache_keys c ! pos = fst (c ! pos)"
    using assms by (simp add: cache_keys_def)
  show "distinct (cache_keys c) \<Longrightarrow>
         set (cache_keys (cache_erase pos c)) = set (cache_keys c) - {cache_keys c ! pos}"
    unfolding nth er by (subst (asm) keys, subst keys) auto
  show "distinct (cache_keys c) \<Longrightarrow> distinct (cache_keys (cache_erase pos c))"
    unfolding er by (subst (asm) keys) auto
qed

lemma check_cleanup_below: "length c < N \<Longrightarrow> check_cleanup N c = Inr c"
  by (simp add: check_cleanup_def)

lemma check_cleanup_full:
  "0 < N \<Longrightarrow> N \<le> length c \<Longrightarrow> check_cleanup N c = Inr (cache_erase (oldest_pos c) c)"
  by (auto simp: check_cleanup_def)

lemma get_font_miss_ok:
  assumes "cache_find font c = None" and "find_face r font = Some f" and "0 < N"
  shows "get_font N r now font c =
           Inr (Some f, cache_assign font (Some f, now)
                  (if length c < N then c else cache_erase (oldest_pos c) c))"
  using assms by (simp add: get_font_def check_cleanup_below check_cleanup_full)

lemma get_font_hit:
  assumes "cache_find font c = Some (f, t)"
  shows "get_font N r now font c =
           Inr (f, map (\<lambda>(k, v). if k = font then (k, (f, now)) else (k, v)) c)"
proof -
  have "font \<in> set (cache_keys c)"
    using assms cache_find_None_iff [of font c] by auto
  then show ?thesis
    using assms by (simp add: get_font_def cache_assign_present)
qed

lemma get_fonts_fill:
  assumes "0 < N"
    and "length c + length calls \<le> N"
    and "distinct (map fst calls)"
    and "set (map fst calls) \<inter> set (cache_keys c) = {}"
    and "\<forall>q\<in>set (map fst calls). find_face r q \<noteq> None"
  shows "\<exists>c1. get_fonts N r calls c = Inr c1
           \<and> length c1 = length c + length calls
           \<and> set (cache_keys c1) = set (cache_keys c) \<union> set (map fst calls)
           \<and> (distinct (cache_keys c) \<longrightarrow> distinct (cache_keys c1))
           \<and> (\<forall>k. cache_find k c1 =
                 (case map_of calls k of
                    Some t \<Rightarrow> Some (find_face r k, t)
                  | None \<Rightarrow> cache_find k c))"
  using assms(2-5)
proof (induction calls arbitrary: c)
  case Nil
  then show ?case by simp
next
  case (Cons call calls)
  obtain q t where call: "call = (q, t)" by (cases call)
  from Cons.prems(3) have fresh: "q \<notin> set (cache_keys c)" by (auto simp: call)
  then have miss: "cache_find q c = None" by (simp add: cache_find_None_iff)
  from Cons.prems(4) obtain f where f: "find_face r q = Some f" by (auto simp: call)
  from Cons.prems(1) have below: "length c < N" by simp
  define c' where "c' = cache_assign q (Some f, t) c"
  have step: "get_font N r t q c = Inr (Some f, c')"
    using get_font_miss_ok [OF miss f \<open>0 < N\<close>] below by (simp add: c'_def)
  have len': "length c' = Suc (length c)"
    and keys': "set (cache_keys c') = insert q (set (cache_keys c))"
    and find': "\<And>k. cache_find k c' = (if k = q then Some (Some f, t) else cache_find k c)"
    and dist': "distinct (cache_keys c) \<Longrightarrow> distinct (cache_keys c')"
    unfolding c'_def using cache_assign_fresh [OF fresh] by blast+
  have qrest: "q \<notin> set (map fst calls)" using Cons.prems(2) by (simp add: call)
  have "\<exists>c1. get_fonts N r calls c' = Inr c1
           \<and> length c1 = length c' + length calls
           \<and> set (cache_keys c1) = set (cache_keys c') \<union> set (map fst calls)
           \<and> (distinct (cache_keys c') \<longrightarrow> distinct (cache_keys c1))
           \<and> (\<forall>k. cache_find k c1 =
                 (case map_of calls k of
                    Some t \<Rightarrow> Some (find_face r k, t)
                  | None \<Rightarrow> cache_find k c'))"
  proof (rule Cons.IH)
    show "length c' + length calls \<le> N" using Cons.prems(1) len' by simp
    show "distinct (map fst calls)" using Cons.prems(2) by simp
    show "set (map fst calls) \<inter> set (cache_keys c') = {}"
      using Cons.prems(3) qrest keys' by auto
    show "\<forall>q\<in>set (map fst calls). find_face r q \<noteq> None" using Cons.prems(4) by simp
  qed
  then obtain c1 where run: "get_fonts N r calls c' = Inr c1"
    and l1: "length c1 = length c' + length calls"
    and k1: "set (cache_keys c1) = set (cache_keys c') \<union> set (map fst calls)"
    and d1: "distinct (cache_keys c') \<longrightarrow> distinct (cache_keys c1)"
    and f1: "\<forall>k. cache_find k c1 =
                 (case map_of calls k of
                    Some t \<Rightarrow> Some (find_face r k, t)
                  | None \<Rightarrow> cache_find k c')"
    by blast
  have "get_fonts N r (call # calls) c = Inr c1"
    by (simp add: call step run)
  moreover have "length c1 = length c + length (call # calls)"
    using l1 len' by simp
  moreover have "set (cache_keys c1) = set (cache_keys c) \<union> set (map fst (call # calls))"
    using k1 keys' by (auto simp: call)
  moreover have "distinct (cache_keys c) \<longrightarrow> distinct (cache_keys c1)"
    using d1 dist' by blast
  moreover have "cache_find k c1 =
                 (case map_of (call # calls) k of
                    Some t \<Rightarrow> Some (find_face r k, t)
                  | None \<Rightarrow> cache_find k c)" for k
  proof (cases "k = q")
    case True
    have "map_of calls q = None" using qrest by (simp add: map_of_eq_None_iff)
    then show ?thesis using f1 find' True f by (simp add: call)
  next
    case False
    then show ?thesis using f1 find' by (simp add: call split: option.splits)
  qed
  ultimately show ?case by blast
qed

lemma get_font_overflow:
  assumes "0 < N" and "length c = N" and "distinct (cache_keys c)"
    and "font \<notin> set (cache_keys c)" and "find_face r font = Some f"
  shows "\<exists>c2. get_font N r now font c = Inr (Some f, c2)
           \<and> c2 = cache_assign font (Some f, now) (cache_erase (oldest_pos c) c)
           \<and> length c2 = N
           \<and> set (cache_keys c2) =
               insert font (set (cache_keys c) - {cache_keys c ! oldest_pos c})
           \<and> distinct (cache_keys c2)"
proof -
  have ne: "c \<noteq> []" using assms(1,2) by auto
  have p: "oldest_pos c < length c" by (rule oldest_pos_props(1) [OF ne])
  define c' where "c' = cache_erase (oldest_pos c) c"
  have l': "length c' = N - 1"
    and k': "set (cache_keys c') = set (cache_keys c) - {cache_keys c ! oldest_pos c}"
    and d': "distinct (cache_keys c')"
    unfolding c'_def using cache_erase_props [OF p] assms(2,3) by simp_all
  have fresh: "font \<notin> set (cache_keys c')" using k' assms(4) by simp
  have miss: "cache_find font c = None" using assms(4) by (simp add: cache_find_None_iff)
  have "get_font N r now font c = Inr (Some f, cache_assign font (Some f, now) c')"
    using get_font_miss_ok [OF miss assms(5,1)] assms(2) by (simp add: c'_def)
  moreover have "length (cache_assign font (Some f, now) c') = N"
    using cache_assign_fresh(1) [OF fresh] l' assms(1) by simp
  moreover have "set (cache_keys (cache_assign font (Some f, now) c')) =
                   insert font (set (cache_keys c) - {cache_keys c ! oldest_pos c})"
    using cache_assign_fresh(2) [OF fresh] k' by simp
  moreover have "distinct (cache_keys (cache_assign font (Some f, now) c'))"
    using cache_assign_fresh(4) [OF fresh d'] .
  ultimately show ?thesis by (simp add: c'_def)
qed

lemma get_fonts_append:
  "get_fonts N r (xs @ ys) c =
     (case get_fonts N r xs c of Inl err \<Rightarrow> Inl err | Inr c' \<Rightarrow> get_fonts N r ys c')"
  by (induction xs arbitrary: c) (auto split: sum.splits)

lemma get_font_hit_frame_aux:
  assumes "cache_find font c = Some (f, t)"
  shows "\<exists>c'. get_font N r now font c = Inr (f, c')
           \<and> get_font N' r' now font c = Inr (f, c')
           \<and> length c' = length c
           \<and> cache_keys c' = cache_keys c
           \<and> (\<forall>i<length c. c' ! i = (if fst (c ! i) = font then (font, (f, now)) else c ! i))
           \<and> (\<forall>k. cache_find k c' = (if k = font then Some (f, now) else cache_find k c))"
proof -
  let ?c' = "map (\<lambda>(k, v). if k = font then (k, (f, now)) else (k, v)) c"
  have present: "font \<in> set (cache_keys c)"
    using assms cache_find_None_iff [of font c] by auto
  have "get_font N r now font c = Inr (f, ?c')" and "get_font N' r' now font c = Inr (f, ?c')"
    using assms by (rule get_font_hit)+
  moreover have "length ?c' = length c" by simp
  moreover have "cache_keys ?c' = cache_keys c" by (rule overwrite_keys)
  moreover have "\<forall>i<length c. ?c' ! i = (if fst (c ! i) = font then (font, (f, now)) else c ! i)"
    using overwrite_nth [of _ c font "(f, now)"] by blast
  moreover have "\<forall>k. cache_find k ?c' = (if k = font then Some (f, now) else cache_find k c)"
    using present by (simp add: overwrite_find)
  ultimately show ?thesis by blast
qed

lemma cache_find_nth:
  assumes "distinct (cache_keys c)" and "i < length c"
  shows "cache_find (fst (c ! i)) c = Some (snd (c ! i))"
proof -
  have "(fst (c ! i), snd (c ! i)) \<in> set c" using assms(2) by simp
  then show ?thesis
    using assms(1) by (simp add: cache_find_def cache_keys_def)
qed

lemma key_eq_iff_index:
  assumes "distinct (cache_keys c)" and "i < length c" and "j < length c"
  shows "fst (c ! i) = fst (c ! j) \<longleftrightarrow> i = j"
proof -
  have "map fst c ! i = map fst c ! j \<longleftrightarrow> i = j"
    using assms nth_eq_iff_index_eq [of "map fst c" i j] by (simp add: cache_keys_def)
  then show ?thesis using assms(2,3) by simp
qed

lemma refresh_then_evict:
  assumes dk: "distinct (cache_keys c)"
    and len: "length c = N"
    and i1: "i1 < N" and i2: "i2 < N"
    and t12: "stamp c i1 < stamp c i2"
    and rest: "\<forall>j<N. j \<noteq> i1 \<and> j \<noteq> i2 \<longrightarrow> stamp c i2 < stamp c j"
    and later: "stamp c i2 < now1"
    and fresh: "font \<notin> set (cache_keys c)"
    and found: "find_face r font = Some f"
  shows "\<exists>c1 c2. get_font N r now1 (fst (c ! i1)) c = Inr (fst (snd (c ! i1)), c1)
           \<and> cache_find (fst (c ! i1)) c1 = Some (fst (snd (c ! i1)), now1)
           \<and> get_font N r now2 font c1 = Inr (Some f, c2)
           \<and> c2 = cache_assign font (Some f, now2) (cache_erase i2 c1)
           \<and> set (cache_keys c2) = insert font (set (cache_keys c) - {fst (c ! i2)})
           \<and> fst (c ! i1) \<in> set (cache_keys c2)
           \<and> fst (c ! i2) \<notin> set (cache_keys c2)"
proof -
  let ?k1 = "fst (c ! i1)" and ?f1 = "fst (snd (c ! i1))"
  have pos: "0 < N" using i1 by simp
  have i12: "i1 \<noteq> i2" using t12 by auto
  have hit: "cache_find ?k1 c = Some (?f1, snd (snd (c ! i1)))"
    using cache_find_nth [OF dk, of i1] i1 len by simp
  obtain c1 where g1: "get_font N r now1 ?k1 c = Inr (?f1, c1)"
    and l1: "length c1 = length c"
    and k1: "cache_keys c1 = cache_keys c"
    and n1: "\<forall>i<length c. c1 ! i = (if fst (c ! i) = ?k1 then (?k1, (?f1, now1)) else c ! i)"
    and f1: "\<forall>k. cache_find k c1 = (if k = ?k1 then Some (?f1, now1) else cache_find k c)"
    using get_font_hit_frame_aux [OF hit, of N r now1] by blast
  have st: "stamp c1 j = (if j = i1 then now1 else stamp c j)" if "j < N" for j
    using that n1 len i1 key_eq_iff_index [OF dk, of j i1] by (simp add: stamp_def)
  have "oldest_pos c1 = i2"
  proof (rule oldest_pos_unique)
    show "i2 < length c1" using i2 l1 len by simp
    show "\<forall>j<length c1. j \<noteq> i2 \<longrightarrow> stamp c1 i2 < stamp c1 j"
      using st i2 i12 later rest l1 len by auto
  qed
  moreover have "cache_keys c1 ! i2 = fst (c ! i2)"
    using k1 i2 len by (simp add: cache_keys_def)
  moreover obtain c2 where "get_font N r now2 font c1 = Inr (Some f, c2)"
    and "c2 = cache_assign font (Some f, now2) (cache_erase (oldest_pos c1) c1)"
    and "set (cache_keys c2) =
           insert font (set (cache_keys c1) - {cache_keys c1 ! oldest_pos c1})"
    using get_font_overflow [OF pos, of c1 font r f now2] l1 len dk k1 fresh found by auto
  moreover have "?k1 \<in> set (cache_keys c)" using i1 len by (simp add: cache_keys_def)
  moreover have "?k1 \<noteq> fst (c ! i2)"
    using key_eq_iff_index [OF dk, of i1 i2] i1 i2 len i12 by simp
  moreover have "fst (c ! i2) \<in> set (cache_keys c)" using i2 len by (simp add: cache_keys_def)
  ultimately show ?thesis using g1 f1 k1 fresh by auto
qed

section \<open>Trimming\<close>

lemma trim_right_spaces:
  assumes "\<forall>ch\<in>set ws. is_space ch"
  shows "trim_right (s @ ws) = trim_right s"
proof -
  have "dropWhile is_space (rev ws @ rev s) = dropWhile is_space (rev s)"
    by (rule dropWhile_append2) (use assms in auto)
  then show ?thesis by (simp add: trim_right_def)
qed

lemma trim_right_prefix:
  assumes "\<forall>ch\<in>set ws. is_space ch"
  shows "trim_right (ws @ s) = (if trim_right s = [] then [] else ws @ trim_right s)"
proof (cases "\<forall>ch\<in>set s. is_space ch")
  case True
  then have "dropWhile is_space (rev s @ rev ws) = []" using assms by auto
  moreover have "dropWhile is_space (rev s) = []" using True by auto
  ultimately show ?thesis by (simp add: trim_right_def)
next
  case False
  then obtain x where x: "x \<in> set (rev s)" "\<not> is_space x" by auto
  then have "dropWhile is_space (rev s @ rev ws) = dropWhile is_space (rev s) @ rev ws"
    by (rule dropWhile_append1)
  then have "trim_right (ws @ s) = ws @ trim_right s" by (simp add: trim_right_def)
  moreover have "trim_right s \<noteq> []" using x by (auto simp: trim_right_def)
  ultimately show ?thesis by simp
qed

lemma trim_padded:
  assumes "\<forall>ch\<in>set a. is_space ch" and "\<forall>ch\<in>set b. is_space ch"
  shows "trim (a @ s @ b) = trim s"
proof -
  have "trim_right (a @ s @ b) = trim_right (a @ s)"
    using trim_right_spaces [OF assms(2), of "a @ s"] by simp
  also have "\<dots> = (if trim_right s = [] then [] else a @ trim_right s)"
    by (rule trim_right_prefix [OF assms(1)])
  finally show ?thesis
    using assms(1) by (simp add: trim_def trim_left_def dropWhile_append2)
qed

lemma trim_spaces:
  assumes "\<forall>ch\<in>set s. is_space ch"
  shows "trim s = []"
  using trim_padded [OF assms, of "[]" "[]"]
  by (simp add: trim_def trim_left_def trim_right_def)

lemma trim_right_fixed:
  assumes "s = [] \<or> \<not> is_space (last s)"
  shows "trim_right s = s"
proof (cases "s = []")
  case True
  then show ?thesis by (simp add: trim_right_def)
next
  case False
  then have eq: "rev s = last s # rev (butlast s)"
    by (metis append_butlast_last_id rev.simps(2) rev_swap rev_append)
  have "dropWhile is_space (last s # rev (butlast s)) = last s # rev (butlast s)"
    using assms False by simp
  then have "dropWhile is_space (rev s) = rev s" by (simp only: eq)
  then show ?thesis by (simp add: trim_right_def)
qed

lemma trim_idem: "trim (trim s) = trim s"
proof -
  let ?r = "trim_right s"
  have r: "?r = [] \<or> \<not> is_space (last ?r)"
  proof (cases "dropWhile is_space (rev s) = []")
    case True
    then show ?thesis by (simp add: trim_right_def)
  next
    case False
    then have "\<not> is_space (hd (dropWhile is_space (rev s)))" by (rule hd_dropWhile)
    then show ?thesis using False by (simp add: trim_right_def last_rev)
  qed
  have "trim s = [] \<or> \<not> is_space (last (trim s))"
  proof (cases "dropWhile is_space ?r = []")
    case True
    then show ?thesis by (simp add: trim_def trim_left_def)
  next
    case False
    then have ne: "?r \<noteq> []" by auto
    have "last (dropWhile is_space ?r) = last ?r"
      using False by (metis last_appendR takeWhile_dropWhile_id)
    then show ?thesis using r ne by (simp add: trim_def trim_left_def)
  qed
  then have "trim_right (trim s) = trim s" by (rule trim_right_fixed)
  then show ?thesis by (simp add: trim_def trim_left_def)
qed

lemma get_font_miss_adds_key:
  assumes "0 < N" and "cache_find q c = None" and "find_face r q = Some f"
  shows "\<exists>c'. get_font N r now q c = Inr (Some f, c')
           \<and> cache_find q c' = Some (Some f, now)
           \<and> (\<forall>k. k \<noteq> q \<and> cache_find k c = None \<longrightarrow> cache_find k c' = None)"
proof -
  define c0 where "c0 = (if length c < N then c else cache_erase (oldest_pos c) c)"
  have sub: "set (cache_keys c0) \<subseteq> set (cache_keys c)"
    unfolding c0_def cache_erase_def cache_keys_def
    by (auto dest: in_set_takeD in_set_dropD)
  have fresh: "q \<notin> set (cache_keys c0)"
    using sub assms(2) by (auto simp: cache_find_None_iff)
  have "get_font N r now q c = Inr (Some f, cache_assign q (Some f, now) c0)"
    using get_font_miss_ok [OF assms(2,3,1)] by (simp add: c0_def)
  moreover have "cache_find k (cache_assign q (Some f, now) c0) =
                   (if k = q then Some (Some f, now) else cache_find k c0)" for k
    by (rule cache_assign_fresh(3) [OF fresh])
  moreover have "cache_find k c0 = None" if "cache_find k c = None" for k
    using that sub by (auto simp: cache_find_None_iff)
  ultimately show ?thesis by auto
qed

section \<open>The try step and the chain\<close>

lemma try_charmap_from_find:
  "try_charmap_from eng face platform encoding idx =
     (case find (\<lambda>i. charmap_matches (charmaps face ! i) platform encoding
                      \<and> FT_Set_Charmap eng face i)
             [idx..<length (charmaps face)] of
        None \<Rightarrow> (False, face)
      | Some i \<Rightarrow> (True, face\<lparr>charmap := Some (charmaps face ! i)\<rparr>))"
proof (induction eng face platform encoding idx rule: try_charmap_from.induct)
  case (1 eng face platform encoding idx)
  show ?case
  proof (cases "idx < length (charmaps face)")
    case False
    then show ?thesis by (subst try_charmap_from.simps) simp
  next
    case True
    then have upt: "[idx..<length (charmaps face)] = idx # [Suc idx..<length (charmaps face)]"
      by (rule upt_conv_Cons)
    show ?thesis
    proof (cases "charmap_matches (charmaps face ! idx) platform encoding
                  \<and> FT_Set_Charmap eng face idx")
      case hit: True
      then show ?thesis using True by (subst try_charmap_from.simps) (simp add: upt)
    next
      case miss: False
      have "try_charmap_from eng face platform encoding idx =
              try_charmap_from eng face platform encoding (Suc idx)"
        using True miss by (subst try_charmap_from.simps) auto
      also have "\<dots> = (case find (\<lambda>i. charmap_matches (charmaps face ! i) platform encoding
                      \<and> FT_Set_Charmap eng face i)
             [Suc idx..<length (charmaps face)] of
        None \<Rightarrow> (False, face)
      | Some i \<Rightarrow> (True, face\<lparr>charmap := Some (charmaps face ! i)\<rparr>))"
        using True miss "1.IH" by blast
      finally show ?thesis using miss by (auto simp: upt)
    qed
  qed
qed

lemma try_charmap_find:
  "try_charmap eng face platform encoding =
     (case find (\<lambda>i. charmap_matches (charmaps face ! i) platform encoding
                      \<and> FT_Set_Charmap eng face i)
             [0..<length (charmaps face)] of
        None \<Rightarrow> (False, face)
      | Some i \<Rightarrow> (True, face\<lparr>charmap := Some (charmaps face ! i)\<rparr>))"
  by (simp add: try_charmap_def try_charmap_from_find)

lemma try_charmap_cases:
  "try_charmap eng face platform encoding =
     (if fst (try_charmap eng face platform encoding)
      then (True, snd (try_charmap eng face platform encoding))
      else (False, face))"
  by (simp add: try_charmap_find split: option.splits)

lemma chain_from_success:
  "foldl (\<lambda>st pe. chain_step eng (fst pe) (snd pe) st) (True, face) pes = (True, face)"
  by (induction pes) (simp_all add: chain_step_def)

lemma chain_from_start:
  "foldl (\<lambda>st pe. chain_step eng (fst pe) (snd pe) st) (False, face) pes =
     (case find (\<lambda>pe. fst (try_charmap eng face (fst pe) (snd pe))) pes of
        None \<Rightarrow> (False, face)
      | Some pe \<Rightarrow> (True, snd (try_charmap eng face (fst pe) (snd pe))))"
proof (induction pes)
  case Nil
  show ?case by simp
next
  case (Cons pe pes)
  show ?case
  proof (cases "fst (try_charmap eng face (fst pe) (snd pe))")
    case True
    then have "chain_step eng (fst pe) (snd pe) (False, face) =
                 (True, snd (try_charmap eng face (fst pe) (snd pe)))"
      using try_charmap_cases [of eng face "fst pe" "snd pe"] by (simp add: chain_step_def)
    then show ?thesis using True by (simp add: chain_from_success)
  next
    case False
    then have "chain_step eng (fst pe) (snd pe) (False, face) = (False, face)"
      using try_charmap_cases [of eng face "fst pe" "snd pe"] by (simp add: chain_step_def)
    then show ?thesis using False Cons.IH by simp
  qed
qed

lemma select_charmap_chain:
  assumes "FT_Select_Charmap eng face = None"
  shows "select_charmap eng face =
     (case find (\<lambda>pe. fst (try_charmap eng face (fst pe) (snd pe))) fallback_chain of
        None \<Rightarrow> (face, [could_not_select face])
      | Some pe \<Rightarrow> (snd (try_charmap eng face (fst pe) (snd pe)), []))"
proof -
  have "select_charmap eng face =
          (case foldl (\<lambda>st pe. chain_step eng (fst pe) (snd pe) st) (False, face) fallback_chain of
             (charmap_set, face') \<Rightarrow>
               (face', if \<not> charmap_set then [could_not_select face'] else []))"
    using assms by (simp add: select_charmap_def fallback_chain_def)
  then show ?thesis
    by (simp add: chain_from_start split: option.splits)
qed

section \<open>Eviction\<close>

text \<open>
  C2. With a positive maximum \<open>N\<close>: \<^verbatim>\<open>check_cleanup\<close> leaves a cache of fewer than
  \<open>N\<close> entries as it is. On a cache of at least \<open>N\<close> entries it erases exactly one
  entry, at a position \<open>p\<close> whose time is the least of all entries and strictly less than
  the time of every entry before \<open>p\<close> in the iteration (the first minimum wins). Hence,
  when \<open>N\<close> distinct queries that all resolve are asked of the empty cache, the cache
  holds exactly these \<open>N\<close> keys, each with the time of its call; one more fresh query
  that resolves leaves \<open>N\<close> entries again: the new key and the old ones without the key
  at the position of the first least time.
\<close>

theorem check_cleanup_lru:
  assumes "0 < N"
  shows "(length c < N \<longrightarrow> check_cleanup N c = Inr c)
       \<and> (N \<le> length c \<longrightarrow>
            (\<exists>p<length c. check_cleanup N c = Inr (take p c @ drop (Suc p) c)
               \<and> length (take p c @ drop (Suc p) c) = length c - 1
               \<and> (\<forall>j<length c. stamp c p \<le> stamp c j)
               \<and> (\<forall>j<p. stamp c p < stamp c j)))
       \<and> (length calls = N \<and> distinct (map fst calls) \<and> font \<notin> set (map fst calls)
            \<and> (\<forall>q\<in>set (font # map fst calls). find_face r q \<noteq> None) \<longrightarrow>
            (\<exists>c1 c2. get_fonts N r calls [] = Inr c1
               \<and> length c1 = N
               \<and> set (cache_keys c1) = set (map fst calls)
               \<and> (\<forall>k t. (k, t) \<in> set calls \<longrightarrow> cache_find k c1 = Some (find_face r k, t))
               \<and> get_fonts N r (calls @ [(font, now)]) [] = Inr c2
               \<and> length c2 = N
               \<and> set (cache_keys c2) =
                   insert font (set (cache_keys c1) - {cache_keys c1 ! oldest_pos c1})
               \<and> oldest_pos c1 < N
               \<and> (\<forall>j<N. stamp c1 (oldest_pos c1) \<le> stamp c1 j)
               \<and> (\<forall>j<oldest_pos c1. stamp c1 (oldest_pos c1) < stamp c1 j)))"
proof (intro conjI impI)
  show "check_cleanup N c = Inr c" if "length c < N"
    using that by (rule check_cleanup_below)
next
  assume full: "N \<le> length c"
  then have ne: "c \<noteq> []" using assms by auto
  let ?p = "oldest_pos c"
  have "?p < length c" by (rule oldest_pos_props(1) [OF ne])
  moreover have "check_cleanup N c = Inr (take ?p c @ drop (Suc ?p) c)"
    using check_cleanup_full [OF assms full] by (simp add: cache_erase_def)
  moreover have "length (take ?p c @ drop (Suc ?p) c) = length c - 1"
    using cache_erase_props(1) [OF \<open>?p < length c\<close>] by (simp add: cache_erase_def)
  moreover note oldest_pos_props(2,3) [OF ne]
  ultimately show "\<exists>p<length c. check_cleanup N c = Inr (take p c @ drop (Suc p) c)
               \<and> length (take p c @ drop (Suc p) c) = length c - 1
               \<and> (\<forall>j<length c. stamp c p \<le> stamp c j)
               \<and> (\<forall>j<p. stamp c p < stamp c j)"
    by blast
next
  assume h: "length calls = N \<and> distinct (map fst calls) \<and> font \<notin> set (map fst calls)
            \<and> (\<forall>q\<in>set (font # map fst calls). find_face r q \<noteq> None)"
  then obtain f where f: "find_face r font = Some f" by auto
  have "\<exists>c1. get_fonts N r calls [] = Inr c1
           \<and> length c1 = length ([] :: cache_t) + length calls
           \<and> set (cache_keys c1) = set (cache_keys []) \<union> set (map fst calls)
           \<and> (distinct (cache_keys []) \<longrightarrow> distinct (cache_keys c1))
           \<and> (\<forall>k. cache_find k c1 =
                 (case map_of calls k of
                    Some t \<Rightarrow> Some (find_face r k, t)
                  | None \<Rightarrow> cache_find k []))"
    using h by (intro get_fonts_fill [OF assms]) (simp_all add: cache_keys_def)
  then obtain c1 where run: "get_fonts N r calls [] = Inr c1"
    and l1: "length c1 = N"
    and k1: "set (cache_keys c1) = set (map fst calls)"
    and d1: "distinct (cache_keys c1)"
    and f1: "\<And>k. cache_find k c1 =
                 (case map_of calls k of
                    Some t \<Rightarrow> Some (find_face r k, t)
                  | None \<Rightarrow> cache_find k [])"
    using h by (auto simp: cache_keys_def)
  have stored: "cache_find k c1 = Some (find_face r k, t)" if "(k, t) \<in> set calls" for k t
  proof -
    have "map_of calls k = Some t" using that h by simp
    then show ?thesis by (simp add: f1)
  qed
  have fresh: "font \<notin> set (cache_keys c1)" using k1 h by simp
  obtain c2 where step: "get_font N r now font c1 = Inr (Some f, c2)"
    and l2: "length c2 = N"
    and k2: "set (cache_keys c2) =
               insert font (set (cache_keys c1) - {cache_keys c1 ! oldest_pos c1})"
    using get_font_overflow [OF assms l1 d1 fresh f, of now] by blast
  have ne: "c1 \<noteq> []" using l1 assms by auto
  have "get_fonts N r (calls @ [(font, now)]) [] = Inr c2"
    by (simp add: get_fonts_append run step)
  with run l1 k1 stored l2 k2 oldest_pos_props [OF ne]
  show "\<exists>c1 c2. get_fonts N r calls [] = Inr c1
               \<and> length c1 = N
               \<and> set (cache_keys c1) = set (map fst calls)
               \<and> (\<forall>k t. (k, t) \<in> set calls \<longrightarrow> cache_find k c1 = Some (find_face r k, t))
               \<and> get_fonts N r (calls @ [(font, now)]) [] = Inr c2
               \<and> length c2 = N
               \<and> set (cache_keys c2) =
                   insert font (set (cache_keys c1) - {cache_keys c1 ! oldest_pos c1})
               \<and> oldest_pos c1 < N
               \<and> (\<forall>j<N. stamp c1 (oldest_pos c1) \<le> stamp c1 j)
               \<and> (\<forall>j<oldest_pos c1. stamp c1 (oldest_pos c1) < stamp c1 j)"
    by (intro exI [of _ c1] exI [of _ c2]) (simp add: l1)
qed

theorem check_cleanup_lru_witness:
  "0 < (2::nat)
   \<and> length [(''a'', (any_font ''a'', 5::int))] < 2
   \<and> check_cleanup 2 [(''a'', (any_font ''a'', 5))] = Inr [(''a'', (any_font ''a'', 5))]
   \<and> 2 \<le> length [(''a'', (any_font ''a'', 5::int)), (''b'', (any_font ''b'', 3))]
   \<and> (\<exists>p<length [(''a'', (any_font ''a'', 5::int)), (''b'', (any_font ''b'', 3))].
          check_cleanup 2 [(''a'', (any_font ''a'', 5)), (''b'', (any_font ''b'', 3))] =
               Inr (take p [(''a'', (any_font ''a'', 5)), (''b'', (any_font ''b'', 3))]
                    @ drop (Suc p) [(''a'', (any_font ''a'', 5)), (''b'', (any_font ''b'', 3))]))
   \<and> distinct (map fst [(''b'', 1::int), (''a'', 2)])
   \<and> ''c'' \<notin> set (map fst [(''b'', 1::int), (''a'', 2)])
   \<and> (\<exists>c1 c2. get_fonts 2 any_font [(''b'', 1), (''a'', 2)] [] = Inr c1
         \<and> get_fonts 2 any_font ([(''b'', 1), (''a'', 2)] @ [(''c'', 3)]) [] = Inr c2
         \<and> length c2 = 2
         \<and> set (cache_keys c2) =
              insert ''c'' (set (cache_keys c1) - {cache_keys c1 ! oldest_pos c1}))"
proof -
  have n: "0 < (2::nat)" by simp
  let ?cA = "[(''a'', (any_font ''a'', 5::int))]"
  let ?cB = "[(''a'', (any_font ''a'', 5::int)), (''b'', (any_font ''b'', 3))]"
  let ?calls = "[(''b'', 1::int), (''a'', 2)]"
  have a: "length ?cA < 2" by simp
  have b: "2 \<le> length ?cB" by simp
  have d: "distinct (map fst ?calls)" by simp
  have e: "''c'' \<notin> set (map fst ?calls)" by simp
  have c: "length ?calls = 2 \<and> distinct (map fst ?calls) \<and> ''c'' \<notin> set (map fst ?calls)
            \<and> (\<forall>q\<in>set (''c'' # map fst ?calls). find_face any_font q \<noteq> None)"
    by (simp add: find_face_def any_font_def)
  from check_cleanup_lru [OF n, where c = ?cA, THEN conjunct1, THEN mp, OF a]
  have 1: "check_cleanup 2 ?cA = Inr ?cA" .
  from check_cleanup_lru [OF n, where c = ?cB, THEN conjunct2, THEN conjunct1, THEN mp, OF b]
  have 2: "\<exists>p<length ?cB. check_cleanup 2 ?cB = Inr (take p ?cB @ drop (Suc p) ?cB)"
    by (elim exE conjE) (intro exI conjI, assumption+)
  from check_cleanup_lru [OF n, where calls = ?calls and font = "''c''" and r = any_font
      and now = 3, THEN conjunct2, THEN conjunct2, THEN mp, OF c]
  have 3: "\<exists>c1 c2. get_fonts 2 any_font ?calls [] = Inr c1
         \<and> get_fonts 2 any_font (?calls @ [(''c'', 3)]) [] = Inr c2
         \<and> length c2 = 2
         \<and> set (cache_keys c2) =
              insert ''c'' (set (cache_keys c1) - {cache_keys c1 ! oldest_pos c1})"
    by (elim exE conjE) (intro exI conjI, assumption+)
  show ?thesis by (intro conjI) (fact n a 1 b 2 d e 3)+
qed

section \<open>Failed resolution\<close>

text \<open>
  C5. When the key of the query is not in the cache and the resolution fails,
  \<^verbatim>\<open>get_font\<close> returns the null pointer and the cache after the call is the cache
  before it: the same entries, in the same order, with the same faces and times.
\<close>

theorem get_font_failed_resolution:
  assumes "cache_find font c = None" and "find_face r font = None"
  shows "get_font N r now font c = Inr (None, c)"
  using assms by (simp add: get_font_def)

theorem get_font_failed_resolution_witness:
  "cache_find ''x'' [(''a'', (any_font ''a'', 5))] = None
   \<and> find_face no_font ''x'' = None
   \<and> get_font 3 no_font 9 ''x'' [(''a'', (any_font ''a'', 5))] =
       Inr (None, [(''a'', (any_font ''a'', 5))])"
proof -
  have 1: "cache_find ''x'' [(''a'', (any_font ''a'', 5))] = None"
    by (simp add: cache_find_def)
  have 2: "find_face no_font ''x'' = None"
    by (simp add: find_face_def no_font_def)
  from get_font_failed_resolution [OF 1 2] 1 2 show ?thesis by blast
qed

section \<open>Cache hit\<close>

text \<open>
  C10. When the query itself, as given, is a key of the cache, \<^verbatim>\<open>get_font\<close> returns the
  stored pointer. The result is the same for every resolver and every maximum, so neither
  the resolver nor the eviction takes part. The cache keeps its length and its keys in
  their order; the entry of the query keeps its pointer and gets the current time; every
  other entry is unchanged.
\<close>

theorem get_font_hit_frame:
  assumes "cache_find font c = Some (f, t)"
  shows "\<exists>c'. get_font N r now font c = Inr (f, c')
           \<and> get_font N' r' now font c = Inr (f, c')
           \<and> length c' = length c
           \<and> cache_keys c' = cache_keys c
           \<and> (\<forall>i<length c. c' ! i = (if fst (c ! i) = font then (font, (f, now)) else c ! i))
           \<and> (\<forall>k. cache_find k c' = (if k = font then Some (f, now) else cache_find k c))"
  using assms by (rule get_font_hit_frame_aux)

theorem get_font_hit_frame_witness:
  "cache_find ''b'' [(''a'', (any_font ''a'', 5)), (''b'', (any_font ''b'', 3))]
     = Some (any_font ''b'', 3)
   \<and> get_font 2 no_font 9 ''b'' [(''a'', (any_font ''a'', 5)), (''b'', (any_font ''b'', 3))]
     = Inr (any_font ''b'', [(''a'', (any_font ''a'', 5)), (''b'', (any_font ''b'', 9))])"
proof -
  let ?c = "[(''a'', (any_font ''a'', 5::int)), (''b'', (any_font ''b'', 3))]"
  have h: "cache_find ''b'' ?c = Some (any_font ''b'', 3)"
    by (simp add: cache_find_def)
  from get_font_hit_frame [OF h, of 2 no_font 9 2 no_font]
  obtain c' where 1: "get_font 2 no_font 9 ''b'' ?c = Inr (any_font ''b'', c')"
    and 2: "length c' = length ?c"
    and 3: "\<forall>i<length ?c. c' ! i = (if fst (?c ! i) = ''b'' then (''b'', (any_font ''b'', 9)) else ?c ! i)"
    by blast
  have "c' = [(''a'', (any_font ''a'', 5)), (''b'', (any_font ''b'', 9))]"
  proof (rule nth_equalityI)
    show "length c' = length [(''a'', (any_font ''a'', 5::int)), (''b'', (any_font ''b'', 9))]"
      using 2 by simp
    fix i assume "i < length c'"
    then have "i = 0 \<or> i = 1" using 2 by auto
    then show "c' ! i = [(''a'', (any_font ''a'', 5)), (''b'', (any_font ''b'', 9))] ! i"
      using 3 by auto
  qed
  with 1 h show ?thesis by simp
qed

section \<open>Eviction after a refreshed access\<close>

text \<open>
  C3, as amended. A hit returns the stored pointer and stores the current time in the entry
  of the query. Take a full cache
  (length \<open>N\<close>, distinct keys) in which position \<open>i1\<close> holds the least time and
  position \<open>i2\<close> the second least, all other times being greater. When the entry at
  \<open>i1\<close> is asked for again at a time \<open>now1\<close> that is strictly later than the time at
  \<open>i2\<close>, and then a fresh query that resolves is asked, the entry at \<open>i2\<close> is the
  one evicted and the entry asked for again stays.
\<close>

theorem eviction_after_refresh:
  "(cache_find q c = Some (g, t) \<longrightarrow>
      (\<exists>c'. get_font N r now q c = Inr (g, c') \<and> cache_find q c' = Some (g, now)))
   \<and> (distinct (cache_keys c) \<and> length c = N \<and> i1 < N \<and> i2 < N
        \<and> stamp c i1 < stamp c i2
        \<and> (\<forall>j<N. j \<noteq> i1 \<and> j \<noteq> i2 \<longrightarrow> stamp c i2 < stamp c j)
        \<and> stamp c i2 < now1
        \<and> font \<notin> set (cache_keys c) \<and> find_face r font = Some f \<longrightarrow>
      (\<exists>c1 c2. get_font N r now1 (fst (c ! i1)) c = Inr (fst (snd (c ! i1)), c1)
           \<and> cache_find (fst (c ! i1)) c1 = Some (fst (snd (c ! i1)), now1)
           \<and> get_font N r now2 font c1 = Inr (Some f, c2)
           \<and> c2 = cache_assign font (Some f, now2) (cache_erase i2 c1)
           \<and> set (cache_keys c2) = insert font (set (cache_keys c) - {fst (c ! i2)})
           \<and> fst (c ! i1) \<in> set (cache_keys c2)
           \<and> fst (c ! i2) \<notin> set (cache_keys c2)))"
proof (intro conjI impI)
  assume "cache_find q c = Some (g, t)"
  from get_font_hit_frame_aux [OF this, of N r now N r]
  show "\<exists>c'. get_font N r now q c = Inr (g, c') \<and> cache_find q c' = Some (g, now)"
    by auto
next
  assume "distinct (cache_keys c) \<and> length c = N \<and> i1 < N \<and> i2 < N
        \<and> stamp c i1 < stamp c i2
        \<and> (\<forall>j<N. j \<noteq> i1 \<and> j \<noteq> i2 \<longrightarrow> stamp c i2 < stamp c j)
        \<and> stamp c i2 < now1
        \<and> font \<notin> set (cache_keys c) \<and> find_face r font = Some f"
  then show "\<exists>c1 c2. get_font N r now1 (fst (c ! i1)) c = Inr (fst (snd (c ! i1)), c1)
           \<and> cache_find (fst (c ! i1)) c1 = Some (fst (snd (c ! i1)), now1)
           \<and> get_font N r now2 font c1 = Inr (Some f, c2)
           \<and> c2 = cache_assign font (Some f, now2) (cache_erase i2 c1)
           \<and> set (cache_keys c2) = insert font (set (cache_keys c) - {fst (c ! i2)})
           \<and> fst (c ! i1) \<in> set (cache_keys c2)
           \<and> fst (c ! i2) \<notin> set (cache_keys c2)"
    by (intro refresh_then_evict) simp_all
qed

theorem eviction_after_refresh_witness:
  "stamp [(''a'', (any_font ''a'', 1)), (''b'', (any_font ''b'', 2)), (''c'', (any_font ''c'', 3))] 0
     < stamp [(''a'', (any_font ''a'', 1)), (''b'', (any_font ''b'', 2)), (''c'', (any_font ''c'', 3))] 1
   \<and> stamp [(''a'', (any_font ''a'', 1)), (''b'', (any_font ''b'', 2)), (''c'', (any_font ''c'', 3))] 1
     < 4
   \<and> find_face any_font ''d'' = Some (plain_face ''d'')
   \<and> cache_find ''a''
         [(''a'', (any_font ''a'', 1)), (''b'', (any_font ''b'', 2)), (''c'', (any_font ''c'', 3))]
       = Some (any_font ''a'', 1)
   \<and> (\<exists>c'. get_font 3 any_font 4 ''a''
           [(''a'', (any_font ''a'', 1)), (''b'', (any_font ''b'', 2)), (''c'', (any_font ''c'', 3))]
           = Inr (any_font ''a'', c')
         \<and> cache_find ''a'' c' = Some (any_font ''a'', 4))
   \<and> (\<exists>c1 c2.
         get_font 3 any_font 4 ''a''
           [(''a'', (any_font ''a'', 1)), (''b'', (any_font ''b'', 2)), (''c'', (any_font ''c'', 3))]
           = Inr (any_font ''a'', c1)
       \<and> cache_find ''a'' c1 = Some (any_font ''a'', 4)
       \<and> get_font 3 any_font 5 ''d'' c1 = Inr (Some (plain_face ''d''), c2)
       \<and> ''a'' \<in> set (cache_keys c2)
       \<and> ''b'' \<notin> set (cache_keys c2))"
proof -
  let ?c = "[(''a'', (any_font ''a'', 1::int)), (''b'', (any_font ''b'', 2)),
             (''c'', (any_font ''c'', 3))]"
  have dk: "distinct (cache_keys ?c)" by (simp add: cache_keys_def)
  have len: "length ?c = 3" by simp
  have i1: "(0::nat) < 3" and i2: "Suc 0 < 3" by simp_all
  have t12: "stamp ?c 0 < stamp ?c (Suc 0)" by (simp add: stamp_def)
  have rest: "\<forall>j<3. j \<noteq> 0 \<and> j \<noteq> Suc 0 \<longrightarrow> stamp ?c (Suc 0) < stamp ?c j"
  proof (intro allI impI)
    fix j :: nat assume "j < 3" and "j \<noteq> 0 \<and> j \<noteq> Suc 0"
    then have "j = 2" by arith
    then show "stamp ?c (Suc 0) < stamp ?c j" by (simp add: stamp_def)
  qed
  have later: "stamp ?c (Suc 0) < 4" by (simp add: stamp_def)
  have fresh: "''d'' \<notin> set (cache_keys ?c)" by (simp add: cache_keys_def)
  have found: "find_face any_font ''d'' = Some (plain_face ''d'')"
    by (simp add: find_face_def find_face_lookup_def trim_def trim_left_def trim_right_def
        is_space_def any_font_def)
  have hyps: "distinct (cache_keys ?c) \<and> length ?c = 3 \<and> 0 < (3::nat) \<and> Suc 0 < 3
        \<and> stamp ?c 0 < stamp ?c (Suc 0)
        \<and> (\<forall>j<3. j \<noteq> 0 \<and> j \<noteq> Suc 0 \<longrightarrow> stamp ?c (Suc 0) < stamp ?c j)
        \<and> stamp ?c (Suc 0) < 4
        \<and> ''d'' \<notin> set (cache_keys ?c) \<and> find_face any_font ''d'' = Some (plain_face ''d'')"
    by (intro conjI) (fact dk len i1 i2 t12 rest later fresh found)+
  note inst = eviction_after_refresh [where c = ?c and N = 3 and ?i1.0 = 0 and ?i2.0 = "Suc 0"
      and ?now1.0 = 4 and font = "''d''" and r = any_font and f = "plain_face ''d''"
      and ?now2.0 = 5,
      THEN conjunct2, THEN mp, OF hyps,
      simplified nth_Cons_0 nth_Cons_Suc fst_conv snd_conv]
  from inst obtain c1 c2
    where "get_font 3 any_font 4 ''a'' ?c = Inr (any_font ''a'', c1)"
      and "cache_find ''a'' c1 = Some (any_font ''a'', 4)"
      and "get_font 3 any_font 5 ''d'' c1 = Inr (Some (plain_face ''d''), c2)"
      and "''a'' \<in> set (cache_keys c2)"
      and "''b'' \<notin> set (cache_keys c2)"
    by (elim exE conjE)
  then have "\<exists>c1 c2.
         get_font 3 any_font 4 ''a'' ?c = Inr (any_font ''a'', c1)
       \<and> cache_find ''a'' c1 = Some (any_font ''a'', 4)
       \<and> get_font 3 any_font 5 ''d'' c1 = Inr (Some (plain_face ''d''), c2)
       \<and> ''a'' \<in> set (cache_keys c2)
       \<and> ''b'' \<notin> set (cache_keys c2)"
    by (intro exI [of _ c1] exI [of _ c2] conjI)
  then have ev: "\<exists>c1 c2.
         get_font 3 any_font 4 ''a'' ?c = Inr (any_font ''a'', c1)
       \<and> cache_find ''a'' c1 = Some (any_font ''a'', 4)
       \<and> get_font 3 any_font 5 ''d'' c1 = Inr (Some (plain_face ''d''), c2)
       \<and> ''a'' \<in> set (cache_keys c2)
       \<and> ''b'' \<notin> set (cache_keys c2)" .
  have hit: "cache_find ''a'' ?c = Some (any_font ''a'', 1)" by (simp add: cache_find_def)
  note again = eviction_after_refresh [where q = "''a''" and c = ?c and g = "any_font ''a''"
      and t = 1 and N = 3 and r = any_font and now = 4, THEN conjunct1, THEN mp, OF hit]
  from t12 later found hit again ev show ?thesis by (simp only: One_nat_def simp_thms)
qed

text \<open>
  C3 as stated puts no condition on the time of the second access. With a maximum of two
  entries, times 1 and 2, and the first entry asked for again at time 2 (the clock counts
  seconds), both entries carry the time 2, the scan keeps the first position, and the entry
  that was asked for again is the one evicted.
\<close>

theorem refresh_tie_counterexample:
  "stamp [(''a'', (any_font ''a'', 1)), (''b'', (any_font ''b'', 2))] 0
     < stamp [(''a'', (any_font ''a'', 1)), (''b'', (any_font ''b'', 2))] 1
   \<and> get_font 2 any_font 2 ''a'' [(''a'', (any_font ''a'', 1)), (''b'', (any_font ''b'', 2))]
     = Inr (any_font ''a'', [(''a'', (any_font ''a'', 2)), (''b'', (any_font ''b'', 2))])
   \<and> get_font 2 any_font 3 ''c'' [(''a'', (any_font ''a'', 2)), (''b'', (any_font ''b'', 2))]
     = Inr (any_font ''c'', [(''b'', (any_font ''b'', 2)), (''c'', (any_font ''c'', 3))])"
  by (simp add: get_font_def cache_find_def cache_assign_def cache_keys_def find_face_def
      find_face_lookup_def trim_def trim_left_def trim_right_def is_space_def any_font_def
      check_cleanup_def oldest_pos_def stamp_def cache_erase_def less_eq_char_def)

section \<open>The key of the cache and the string resolved\<close>

text \<open>
  C1, as amended. \<^verbatim>\<open>get_font\<close> looks the query up, and stores it, as it is given; only the
  string handed to the resolver is normalised. The resolver gets the trimmed query, or the
  default query when nothing is left; so a query, the same query between blanks and the
  trimmed query are resolved alike, and a query of white space only is resolved as the
  default query. A hit is decided by the query as given. After a miss that resolves, the
  query as given is a key of the cache, and no other string has become one.
\<close>

theorem get_font_key_is_raw_query:
  "find_face r q = r (find_face_lookup q)
   \<and> find_face_lookup (''  '' @ q @ ''  '') = find_face_lookup q
   \<and> find_face_lookup (trim q) = find_face_lookup q
   \<and> find_face_lookup q = (if trim q = [] then DEFAULT_FONT else trim q)
   \<and> ((\<forall>ch\<in>set q. is_space ch) \<longrightarrow> find_face_lookup q = DEFAULT_FONT)
   \<and> (cache_find q c = Some (f, t) \<longrightarrow> (\<exists>c'. get_font N r now q c = Inr (f, c')))
   \<and> (0 < N \<and> cache_find q c = None \<and> find_face r q = Some g \<longrightarrow>
        (\<exists>c'. get_font N r now q c = Inr (Some g, c')
           \<and> cache_find q c' = Some (Some g, now)
           \<and> (\<forall>k. k \<noteq> q \<and> cache_find k c = None \<longrightarrow> cache_find k c' = None)))"
proof (intro conjI impI)
  show "find_face r q = r (find_face_lookup q)" by (simp add: find_face_def)
  have "trim (''  '' @ q @ ''  '') = trim q"
    by (rule trim_padded) (simp_all add: is_space_def)
  then show "find_face_lookup (''  '' @ q @ ''  '') = find_face_lookup q"
    by (simp add: find_face_lookup_def)
  show "find_face_lookup (trim q) = find_face_lookup q"
    by (simp add: find_face_lookup_def trim_idem)
  show "find_face_lookup q = (if trim q = [] then DEFAULT_FONT else trim q)"
    by (simp add: find_face_lookup_def)
  show "find_face_lookup q = DEFAULT_FONT" if "\<forall>ch\<in>set q. is_space ch"
    using trim_spaces [OF that] by (simp add: find_face_lookup_def)
  show "\<exists>c'. get_font N r now q c = Inr (f, c')" if "cache_find q c = Some (f, t)"
    using get_font_hit [OF that] by blast
  show "\<exists>c'. get_font N r now q c = Inr (Some g, c')
           \<and> cache_find q c' = Some (Some g, now)
           \<and> (\<forall>k. k \<noteq> q \<and> cache_find k c = None \<longrightarrow> cache_find k c' = None)"
    if "0 < N \<and> cache_find q c = None \<and> find_face r q = Some g"
    using that get_font_miss_adds_key [of N q c r g now] by blast
qed

theorem get_font_key_is_raw_query_witness:
  "find_face_lookup ''   '' = DEFAULT_FONT
   \<and> cache_find ''b'' [(''a'', (any_font ''a'', 5)), (''b'', (any_font ''b'', 3))]
       = Some (any_font ''b'', 3)
   \<and> (\<exists>c'. get_font 2 no_font 9 ''b'' [(''a'', (any_font ''a'', 5)), (''b'', (any_font ''b'', 3))]
             = Inr (any_font ''b'', c'))
   \<and> 0 < (3::nat)
   \<and> cache_find ''  a  '' [] = None
   \<and> find_face any_font ''  a  '' = Some (plain_face ''a'')
   \<and> (\<exists>c'. get_font 3 any_font 1 ''  a  '' [] = Inr (Some (plain_face ''a''), c')
          \<and> cache_find ''  a  '' c' = Some (Some (plain_face ''a''), 1)
          \<and> cache_find ''a'' c' = None)"
proof -
  let ?cB = "[(''a'', (any_font ''a'', 5::int)), (''b'', (any_font ''b'', 3))]"
  have sp: "\<forall>ch\<in>set ''   ''. is_space ch" by (simp add: is_space_def)
  have hit: "cache_find ''b'' ?cB = Some (any_font ''b'', 3)" by (simp add: cache_find_def)
  have n: "0 < (3::nat)" by simp
  have miss: "cache_find ''  a  '' [] = None" by (simp add: cache_find_def)
  have other: "cache_find ''a'' [] = None" by (simp add: cache_find_def)
  have res: "find_face any_font ''  a  '' = Some (plain_face ''a'')"
    by (simp add: find_face_def find_face_lookup_def trim_def trim_left_def trim_right_def
        is_space_def any_font_def)
  note t = get_font_key_is_raw_query
  from t [where q = "''   ''", THEN conjunct2, THEN conjunct2, THEN conjunct2, THEN conjunct2,
      THEN conjunct1, THEN mp, OF sp]
  have 1: "find_face_lookup ''   '' = DEFAULT_FONT" .
  from t [where q = "''b''" and c = ?cB and N = 2 and r = no_font and now = 9,
      THEN conjunct2, THEN conjunct2, THEN conjunct2, THEN conjunct2, THEN conjunct2,
      THEN conjunct1, THEN mp, OF hit]
  have 2: "\<exists>c'. get_font 2 no_font 9 ''b'' ?cB = Inr (any_font ''b'', c')" .
  from t [where q = "''  a  ''" and c = "[]" and N = 3 and r = any_font and now = 1
      and g = "plain_face ''a''",
      THEN conjunct2, THEN conjunct2, THEN conjunct2, THEN conjunct2, THEN conjunct2,
      THEN conjunct2, THEN mp, OF conjI [OF n conjI [OF miss res]]]
  obtain c' where a: "get_font 3 any_font 1 ''  a  '' [] = Inr (Some (plain_face ''a''), c')"
    and b: "cache_find ''  a  '' c' = Some (Some (plain_face ''a''), 1)"
    and c: "\<forall>k. k \<noteq> ''  a  '' \<and> cache_find k [] = None \<longrightarrow> cache_find k c' = None"
    by (elim exE conjE)
  have "''a'' \<noteq> ''  a  ''" by simp
  with c other have "cache_find ''a'' c' = None" by (elim allE [of _ "''a''"]) simp
  with a b have 3: "\<exists>c'. get_font 3 any_font 1 ''  a  '' [] = Inr (Some (plain_face ''a''), c')
          \<and> cache_find ''  a  '' c' = Some (Some (plain_face ''a''), 1)
          \<and> cache_find ''a'' c' = None"
    by (intro exI [of _ c'] conjI)
  show ?thesis by (intro conjI) (fact 1 hit 2 n miss res 3)+
qed

text \<open>
  C1 as stated: the cache would be keyed by the trimmed query, or by the default query
  when the trimmed query is empty. It is not: a query between blanks and the same query
  without them take two entries, both for the same resolved font, and so do the empty
  query and the default query.
\<close>

theorem trimmed_key_counterexample:
  "get_fonts 3 any_font [(''  a  '', 1), (''a'', 2)] []
     = Inr [(''  a  '', (any_font ''a'', 1)), (''a'', (any_font ''a'', 2))]
   \<and> get_fonts 3 any_font [('''', 1), (DEFAULT_FONT, 2)] []
     = Inr [('''', (any_font DEFAULT_FONT, 1)), (DEFAULT_FONT, (any_font DEFAULT_FONT, 2))]"
  by (simp add: get_font_def cache_find_def cache_assign_def cache_keys_def find_face_def
      find_face_lookup_def trim_def trim_left_def trim_right_def is_space_def any_font_def
      check_cleanup_def less_eq_char_def DEFAULT_FONT_def)

section \<open>One try step\<close>

text \<open>
  C7, as amended. A try step goes through the charmap table in order and tries to activate
  every entry that matches the platform and, unless the encoding is negative, the encoding,
  until an activation succeeds. It reports success exactly when some matching entry can be
  activated; the active charmap is then the first such entry. Otherwise the face is left as
  it was.
\<close>

theorem try_charmap_until_activation:
  "try_charmap eng face platform encoding =
     (case find (\<lambda>i. charmap_matches (charmaps face ! i) platform encoding
                      \<and> FT_Set_Charmap eng face i)
             [0..<length (charmaps face)] of
        None \<Rightarrow> (False, face)
      | Some i \<Rightarrow> (True, face\<lparr>charmap := Some (charmaps face ! i)\<rparr>))
   \<and> fst (try_charmap eng face platform encoding) =
       (\<exists>i<length (charmaps face).
          uint (platform_id (charmaps face ! i)) = platform
          \<and> (encoding < 0 \<or> uint (encoding_id (charmaps face ! i)) = encoding)
          \<and> FT_Set_Charmap eng face i)"
proof
  show a: "try_charmap eng face platform encoding =
     (case find (\<lambda>i. charmap_matches (charmaps face ! i) platform encoding
                      \<and> FT_Set_Charmap eng face i)
             [0..<length (charmaps face)] of
        None \<Rightarrow> (False, face)
      | Some i \<Rightarrow> (True, face\<lparr>charmap := Some (charmaps face ! i)\<rparr>))"
    by (rule try_charmap_find)
  show "fst (try_charmap eng face platform encoding) =
       (\<exists>i<length (charmaps face).
          uint (platform_id (charmaps face ! i)) = platform
          \<and> (encoding < 0 \<or> uint (encoding_id (charmaps face ! i)) = encoding)
          \<and> FT_Set_Charmap eng face i)"
  proof -
    define P where "P = (\<lambda>i. charmap_matches (charmaps face ! i) platform encoding
                      \<and> FT_Set_Charmap eng face i)"
    have "fst (try_charmap eng face platform encoding)
            = (find P [0..<length (charmaps face)] \<noteq> None)"
      unfolding a P_def by (simp split: option.splits)
    also have "\<dots> = (\<exists>i<length (charmaps face). P i)"
      by (auto simp: find_None_iff)
    finally show ?thesis by (simp add: P_def charmap_matches_def)
  qed
qed

text \<open>
  C7 as stated: only the first matching entry would be tried. With two Apple-Unicode
  entries, the first of which the engine refuses to activate, the try step of the code
  goes on to the second entry and succeeds, where trying the first match only fails.
\<close>

theorem first_match_only_counterexample:
  "try_charmap (demo_engine variation_face [0]) variation_face TT_PLATFORM_APPLE_UNICODE (- 1)
     = (True, variation_face\<lparr>charmap := Some \<lparr>platform_id = 0, encoding_id = 6\<rparr>\<rparr>)
   \<and> try_charmap_first_match (demo_engine variation_face [0]) variation_face
        TT_PLATFORM_APPLE_UNICODE (- 1)
     = (False, variation_face)"
  by (simp add: try_charmap_find try_charmap_first_match_def variation_face_def demo_engine_def
      charmap_matches_def TT_PLATFORM_APPLE_UNICODE_def)

section \<open>The fallback chain of the resolver\<close>

text \<open>
  C6. When the query parses, the match has a file and an index, the face loads, and the
  engine's selection of a Unicode charmap fails, \<^verbatim>\<open>find_face_fontconfig\<close> returns the face
  in every case. The pairs of \<open>fallback_chain\<close>, that is (Microsoft, Unicode-BMP),
  (ISO, 10646), (Apple-Unicode, any), (Microsoft, Symbol), (Macintosh, Roman), (ISO, 8859-1),
  (ISO, 7-bit ASCII), are tried in this order: the first pair whose try step succeeds
  decides the active charmap, no warning is logged and no later pair has an effect. When
  no pair succeeds the face is returned as it was loaded, and the one warning logged names
  its family and its style.
\<close>

theorem charmap_fallback_chain:
  assumes "FcNameParse eng font"
    and "FC_FILE (FcFontMatch eng font) = Some file_value"
    and "FC_INDEX (FcFontMatch eng font) = Some font_index"
    and "FT_New_Face eng file_value font_index = Some ftFace"
    and "FT_Select_Charmap eng ftFace = None"
  shows "find_face_fontconfig eng font =
           (case find (\<lambda>pe. fst (try_charmap eng ftFace (fst pe) (snd pe))) fallback_chain of
              Some pe \<Rightarrow>
                (Some \<lparr>face_ = snd (try_charmap eng ftFace (fst pe) (snd pe)),
                       features_ = split_on CHR '';''
                         (case FC_FONT_FEATURES (FcFontMatch eng font) of
                            Some s \<Rightarrow> s
                          | None \<Rightarrow> [])\<rparr>,
                 [])
            | None \<Rightarrow>
                (Some \<lparr>face_ = ftFace,
                       features_ = split_on CHR '';''
                         (case FC_FONT_FEATURES (FcFontMatch eng font) of
                            Some s \<Rightarrow> s
                          | None \<Rightarrow> [])\<rparr>,
                 [''Could not select a char map for font '' @ [CHR 0x27]
                    @ family_name ftFace @ ''/'' @ style_name ftFace @ [CHR 0x27]]))"
proof -
  let ?features = "split_on CHR '';''
      (case FC_FONT_FEATURES (FcFontMatch eng font) of Some s \<Rightarrow> s | None \<Rightarrow> [])"
  have "find_face_fontconfig eng font =
          (case select_charmap eng ftFace of
             (ftFace', warnings) \<Rightarrow>
               (Some \<lparr>face_ = ftFace', features_ = ?features\<rparr>, warnings))"
    using assms(1-4) by (simp add: find_face_fontconfig_def)
  then show ?thesis
    by (simp add: select_charmap_chain [OF assms(5)] could_not_select_def split: option.splits)
qed

theorem charmap_fallback_chain_witness:
  "FcNameParse (demo_engine mac_roman_face []) ''Chicago''
   \<and> FC_FILE (FcFontMatch (demo_engine mac_roman_face []) ''Chicago'') = Some ''/fonts/demo.ttf''
   \<and> FC_INDEX (FcFontMatch (demo_engine mac_roman_face []) ''Chicago'') = Some 0
   \<and> FT_New_Face (demo_engine mac_roman_face []) ''/fonts/demo.ttf'' 0 = Some mac_roman_face
   \<and> FT_Select_Charmap (demo_engine mac_roman_face []) mac_roman_face = None
   \<and> find_face_fontconfig (demo_engine mac_roman_face []) ''Chicago'' =
       (Some \<lparr>face_ = mac_roman_face\<lparr>charmap := Some \<lparr>platform_id = 1, encoding_id = 0\<rparr>\<rparr>,
              features_ = [[]]\<rparr>, [])"
proof -
  let ?eng = "demo_engine mac_roman_face []"
  have 1: "FcNameParse ?eng ''Chicago''" by (simp add: demo_engine_def)
  have 2: "FC_FILE (FcFontMatch ?eng ''Chicago'') = Some ''/fonts/demo.ttf''"
    by (simp add: demo_engine_def)
  have 3: "FC_INDEX (FcFontMatch ?eng ''Chicago'') = Some 0" by (simp add: demo_engine_def)
  have 4: "FT_New_Face ?eng ''/fonts/demo.ttf'' 0 = Some mac_roman_face"
    by (simp add: demo_engine_def)
  have 5: "FT_Select_Charmap ?eng mac_roman_face = None" by (simp add: demo_engine_def)
  have t: "try_charmap ?eng mac_roman_face p e =
             (if p = 1 \<and> (e < 0 \<or> e = 0)
              then (True, mac_roman_face\<lparr>charmap := Some \<lparr>platform_id = 1, encoding_id = 0\<rparr>\<rparr>)
              else (False, mac_roman_face))" for p e
    by (simp add: try_charmap_find mac_roman_face_def demo_engine_def charmap_matches_def)
  have f: "FC_FONT_FEATURES (FcFontMatch ?eng ''Chicago'') = None" by (simp add: demo_engine_def)
  have "find_face_fontconfig ?eng ''Chicago'' =
       (Some \<lparr>face_ = mac_roman_face\<lparr>charmap := Some \<lparr>platform_id = 1, encoding_id = 0\<rparr>\<rparr>,
              features_ = [[]]\<rparr>, [])"
    using charmap_fallback_chain [OF 1 2 3 4 5]
    by (simp add: t f fallback_chain_def TT_PLATFORM_MICROSOFT_def TT_MS_ID_UNICODE_CS_def
        TT_PLATFORM_ISO_def TT_ISO_ID_10646_def TT_PLATFORM_APPLE_UNICODE_def
        TT_MS_ID_SYMBOL_CS_def TT_PLATFORM_MACINTOSH_def TT_MAC_ID_ROMAN_def
        TT_ISO_ID_8859_1_def TT_ISO_ID_7BIT_ASCII_def)
  with 1 2 3 4 5 show ?thesis by (intro conjI)
qed

section \<open>Windows symbol fonts\<close>

text \<open>
  C8. For a face with an active charmap, \<^verbatim>\<open>is_windows_symbol_font\<close> is true exactly when
  the platform of the active charmap is Microsoft, its encoding is Symbol, and the first
  character code that the charmap defines is at least \<open>0xF000\<close> (the code tests the
  glyph index against 0 for "defined").
\<close>

theorem windows_symbol_font_iff:
  assumes "charmap face = Some cm"
  shows "is_windows_symbol_font eng face =
           Inr (uint (platform_id cm) = TT_PLATFORM_MICROSOFT
                \<and> uint (encoding_id cm) = TT_MS_ID_SYMBOL_CS
                \<and> (\<exists>charcode. first_defined_char eng face = Some charcode
                      \<and> 0xF000 \<le> charcode))"
  using assms
  by (auto simp: is_windows_symbol_font_def first_defined_char_def split: prod.splits)

theorem windows_symbol_font_iff_witness:
  "charmap symbol_face = Some \<lparr>platform_id = 3, encoding_id = 0\<rparr>
   \<and> first_defined_char (demo_engine symbol_face []) symbol_face = Some 0xF020
   \<and> is_windows_symbol_font (demo_engine symbol_face []) symbol_face = Inr True"
proof -
  have 1: "charmap symbol_face = Some \<lparr>platform_id = 3, encoding_id = 0\<rparr>"
    by (simp add: symbol_face_def)
  have 2: "first_defined_char (demo_engine symbol_face []) symbol_face = Some 0xF020"
    by (simp add: first_defined_char_def demo_engine_def)
  from windows_symbol_font_iff [OF 1, of "demo_engine symbol_face []"] 2
  have "is_windows_symbol_font (demo_engine symbol_face []) symbol_face = Inr True"
    by (simp add: TT_PLATFORM_MICROSOFT_def TT_MS_ID_SYMBOL_CS_def)
  with 1 2 show ?thesis by (intro conjI)
qed

end
